theory Spec2Isabelle
  imports Main
begin

section \<open>JavaScript values\<close>

text \<open>
  The values a cell can hold and the arguments its methods can receive. Numbers are the
  integer-valued ones plus \<open>NaN\<close>; objects and functions are references (addresses), so
  that two of them are the same value exactly when they are the same object. \<open>the_ref\<close>
  is the address of a function value; it is only applied behind a \<^verbatim>\<open>typeof\<close> guard.
\<close>

datatype jsval =
    Undefined
  | Null
  | Boolean bool
  | Num int
  | NaN
  | Str string
  | Obj nat
  | Fun (the_ref: nat)

text \<open>The result of \<^verbatim>\<open>typeof v\<close>.\<close>

fun typeof :: "jsval \<Rightarrow> string" where
  "typeof Undefined = ''undefined''"
| "typeof Null = ''object''"
| "typeof (Boolean b) = ''boolean''"
| "typeof (Num n) = ''number''"
| "typeof NaN = ''number''"
| "typeof (Str s) = ''string''"
| "typeof (Obj a) = ''object''"
| "typeof (Fun f) = ''function''"

text \<open>
  The conversion to a boolean that \<^verbatim>\<open>if (..)\<close> and \<^verbatim>\<open>&&\<close> apply to their
  operand.
\<close>

fun truthy :: "jsval \<Rightarrow> bool" where
  "truthy Undefined = False"
| "truthy Null = False"
| "truthy (Boolean b) = b"
| "truthy (Num n) = (n \<noteq> 0)"
| "truthy NaN = False"
| "truthy (Str s) = (s \<noteq> [])"
| "truthy (Obj a) = True"
| "truthy (Fun f) = True"

text \<open>
  \<^verbatim>\<open>a !== b\<close>: strict inequality. Values of the same kind are compared by value
  (references by address), and \<open>NaN\<close> is unequal to everything, itself included.
\<close>

definition strict_neq :: "jsval \<Rightarrow> jsval \<Rightarrow> bool" where
  "strict_neq a b = (a = NaN \<or> a \<noteq> b)"

text \<open>
  The function objects of the heap: \<open>env f\<close> is what the function at address \<open>f\<close>
  returns for an argument. Validators are taken to be pure and total: they return a value
  for every candidate, and they neither throw nor call back into the cell.
\<close>

type_synonym fenv = "nat \<Rightarrow> jsval \<Rightarrow> jsval"

section \<open>The reactive primitive\<close>

text \<open>
  Modelled from the spec: the reactive value \<^verbatim>\<open>ko.observable\<close> of knockout.js, which
  the cell wraps and which is not part of this repository. The spec gives it three
  capabilities: a synchronous read of the current value, a synchronous write that
  triggers observer notification, and an explicit operation that forces a notification
  without changing the value. The observers of the cell are invoked whenever this
  notification mechanism fires; \<open>notifications\<close> lists the values they were invoked with,
  oldest first. The contract does not say whether writing the value already held
  notifies; here every write does, and nothing below depends on that choice.
\<close>

record observable =
  latestValue :: jsval
  notifications :: "jsval list"

definition ko_observable :: "jsval \<Rightarrow> observable" where
  "ko_observable initialValue = \<lparr>latestValue = initialValue, notifications = []\<rparr>"

definition obs_read :: "observable \<Rightarrow> jsval" where
  "obs_read ob = latestValue ob"

definition obs_write :: "observable \<Rightarrow> jsval \<Rightarrow> observable" where
  "obs_write ob v = \<lparr>latestValue = v, notifications = notifications ob @ [v]\<rparr>"

definition valueHasMutated :: "observable \<Rightarrow> observable" where
  "valueHasMutated ob = ob\<lparr>notifications := notifications ob @ [latestValue ob]\<rparr>"

section \<open>Arrays\<close>

text \<open>
  \<^verbatim>\<open>Array.prototype.indexOf\<close>: the first index holding the element, \<open>-1\<close> when there
  is none. The chain holds function references, on which \<^verbatim>\<open>===\<close> is equality of
  addresses.
\<close>

fun indexOf :: "nat list \<Rightarrow> nat \<Rightarrow> int" where
  "indexOf [] x = - 1"
| "indexOf (y # ys) x =
     (if y = x then 0
      else (let r = indexOf ys x in if r = - 1 then - 1 else r + 1))"

text \<open>\<^verbatim>\<open>xs.push(x)\<close>.\<close>

definition push :: "nat list \<Rightarrow> nat \<Rightarrow> nat list" where
  "push xs x = xs @ [x]"

text \<open>
  \<^verbatim>\<open>xs.splice(start, deleteCount)\<close> with no items to insert. A negative start counts
  from the end of the array, and the start is clamped to the array.
\<close>

definition array_splice :: "nat list \<Rightarrow> int \<Rightarrow> nat \<Rightarrow> nat list" where
  "array_splice xs start deleteCount =
     (let len = int (length xs);
          s = nat (if start < 0 then max (len + start) 0 else min start len)
      in take s xs @ drop (s + deleteCount) xs)"

section \<open>The validated observable\<close>

text \<open>
  The closure variables of \<^verbatim>\<open>ko.validatedObservable\<close>: \<^verbatim>\<open>_value\<close>,
  \<^verbatim>\<open>_lastValue\<close> and \<^verbatim>\<open>_validationChain\<close>. The chain holds references to
  function objects: the \<^verbatim>\<open>typeof\<close> guard of \<^verbatim>\<open>addValidator\<close> lets nothing
  else into it. \<open>invoked\<close> is a ghost field: the validators called so far, in the order
  of the calls.
\<close>

record cell =
  value' :: observable
  lastValue :: jsval
  validationChain :: "nat list"
  invoked :: "nat list"

datatype error = Thrown string

text \<open>
  The constructor. \<^verbatim>\<open>_value\<close> is created by \<^verbatim>\<open>ko.observable()\<close>, called with no
  argument, and \<^verbatim>\<open>_lastValue\<close> is declared without an initialiser; \<^verbatim>\<open>initValue\<close>
  is not used.
\<close>

definition validatedObservable :: "jsval \<Rightarrow> cell" where
  "validatedObservable initValue =
     \<lparr>value' = ko_observable Undefined, lastValue = Undefined,
      validationChain = [], invoked = []\<rparr>"

definition read :: "cell \<Rightarrow> jsval" where
  "read c = obs_read (value' c)"

text \<open>
  The loop of \<^verbatim>\<open>runValidationChain\<close>, with its variables \<^verbatim>\<open>_isValid\<close> and
  \<^verbatim>\<open>_index\<close>; \<open>tr\<close> collects the validators it calls.
\<close>

function runValidationChain_while ::
  "fenv \<Rightarrow> nat list \<Rightarrow> jsval \<Rightarrow> jsval \<Rightarrow> nat \<Rightarrow> nat list \<Rightarrow> jsval \<times> nat list" where
  "runValidationChain_while env chain newValue isValid index tr =
     (if truthy isValid \<and> index < length chain
      then runValidationChain_while env chain newValue
             (env (chain ! index) newValue) (Suc index) (tr @ [chain ! index])
      else (isValid, tr))"
  by pat_completeness auto
termination
  by (relation "measure (\<lambda>(env, chain, newValue, isValid, index, tr). length chain - index)")
    auto

declare runValidationChain_while.simps [simp del]

definition runValidationChain :: "fenv \<Rightarrow> nat list \<Rightarrow> jsval \<Rightarrow> jsval \<times> nat list" where
  "runValidationChain env chain newValue =
     runValidationChain_while env chain newValue (Boolean True) 0 []"

definition write' :: "fenv \<Rightarrow> cell \<Rightarrow> jsval \<Rightarrow> cell" where
  "write' env c newValue =
     (let c1 = c\<lparr>lastValue := obs_read (value' c)\<rparr>;
          (isValid, tr) = runValidationChain env (validationChain c1) newValue;
          c2 = c1\<lparr>invoked := invoked c1 @ tr\<rparr>
      in if truthy isValid
         then c2\<lparr>value' := obs_write (value' c2) newValue\<rparr>
         else c2\<lparr>value' := valueHasMutated (value' c2)\<rparr>)"

text \<open>
  \<^verbatim>\<open>addValidator\<close> and \<^verbatim>\<open>removeValidator\<close> return the outcome of the call (the
  thrown value, or a normal return of the cell itself) and the cell after it.
\<close>

definition addValidator :: "cell \<Rightarrow> jsval \<Rightarrow> (error + unit) \<times> cell" where
  "addValidator c validationFunct =
     (if typeof validationFunct \<noteq> ''function''
      then (Inl (Thrown ''Invalid argument for addValidator() - Argument 1 MUST be a function''),
            c)
      else if indexOf (validationChain c) (the_ref validationFunct) = - 1
      then (Inr (),
            c\<lparr>validationChain := push (validationChain c) (the_ref validationFunct)\<rparr>)
      else (Inr (), c))"

definition removeValidator :: "cell \<Rightarrow> jsval \<Rightarrow> (error + unit) \<times> cell" where
  "removeValidator c validationFunct =
     (if typeof validationFunct \<noteq> ''function''
      then (Inl (Thrown
                  ''Invalid argument for removeValidator() - Argument 1 MUST be a function''),
            c)
      else (let index = indexOf (validationChain c) (the_ref validationFunct)
            in if index \<noteq> - 1
               then (Inr (), c\<lparr>validationChain := array_splice (validationChain c) index 1\<rparr>)
               else (Inr (), c)))"

definition hasChanged :: "cell \<Rightarrow> bool" where
  "hasChanged c = strict_neq (obs_read (value' c)) (lastValue c)"

section \<open>Sequences of calls\<close>

text \<open>
  A client of a cell calls its five operations in some order. \<open>step\<close> is the cell after
  one call (a call that throws leaves the cell to the client as it is returned here), and
  \<open>run\<close> the cell after a sequence of calls.
\<close>

datatype call =
    Read
  | is_Write: Write jsval
  | AddValidator jsval
  | RemoveValidator jsval
  | HasChanged

fun step :: "fenv \<Rightarrow> cell \<Rightarrow> call \<Rightarrow> cell" where
  "step env c Read = c"
| "step env c (Write newValue) = write' env c newValue"
| "step env c (AddValidator validationFunct) = snd (addValidator c validationFunct)"
| "step env c (RemoveValidator validationFunct) = snd (removeValidator c validationFunct)"
| "step env c HasChanged = c"

definition run :: "fenv \<Rightarrow> cell \<Rightarrow> call list \<Rightarrow> cell" where
  "run env c calls = foldl (step env) c calls"

text \<open>
  Function objects for the examples: with \<open>above_100\<close> the function at address 0 accepts
  the numbers above 100 and nothing else, and every other function accepts every value;
  with \<open>reject_all\<close> every function returns \<^verbatim>\<open>false\<close>.
\<close>

definition above_100 :: fenv where
  "above_100 f v =
     (if f = 0 then (case v of Num n \<Rightarrow> Boolean (100 < n) | _ \<Rightarrow> Boolean False)
      else Boolean True)"

definition reject_all :: fenv where
  "reject_all f v = Boolean False"

text \<open>
  Cells for the examples, each reached from the constructor by calls of the operations:
  \<open>cell_123\<close> holds 123 and has the validator at address 0 in its chain, \<open>cell_NaN\<close>
  holds \<open>NaN\<close> and has the validator at address 0, \<open>cell_12\<close> has the validators at
  addresses 1 and 2, in this order, and \<open>cell_10\<close> the validators at addresses 1 and 0,
  in this order.
\<close>

definition cell_123 :: cell where
  "cell_123 =
     run above_100 (validatedObservable (Num 123)) [Write (Num 123), AddValidator (Fun 0)]"

definition cell_NaN :: cell where
  "cell_NaN = run reject_all (validatedObservable Undefined) [Write NaN, AddValidator (Fun 0)]"

definition cell_12 :: cell where
  "cell_12 =
     run reject_all (validatedObservable Undefined) [AddValidator (Fun 1), AddValidator (Fun 2)]"

definition cell_10 :: cell where
  "cell_10 =
     run above_100 (validatedObservable Undefined) [AddValidator (Fun 1), AddValidator (Fun 0)]"

section \<open>Arrays: facts\<close>

lemma indexOf_nonneg: "x \<in> set xs \<Longrightarrow> 0 \<le> indexOf xs x"
  by (induction xs) (auto simp: Let_def)

lemma indexOf_absent: "(indexOf xs x = - 1) = (x \<notin> set xs)"
proof (induction xs)
  case Nil show ?case by simp
next
  case (Cons y ys)
  show ?case using Cons indexOf_nonneg [of x ys] by (auto simp: Let_def)
qed

lemma indexOf_less: "indexOf xs x < int (length xs)"
  by (induction xs) (auto simp: Let_def)

lemma array_splice_nat:
  "i \<le> length xs \<Longrightarrow> array_splice xs (int i) d = take i xs @ drop (i + d) xs"
  by (simp add: array_splice_def Let_def min_def)

lemma remove1_indexOf:
  "indexOf xs x = int i \<Longrightarrow> take i xs @ drop (Suc i) xs = remove1 x xs"
proof (induction xs arbitrary: i)
  case Nil then show ?case by simp
next
  case (Cons y ys)
  show ?case
  proof (cases "y = x")
    case True
    with Cons.prems show ?thesis by simp
  next
    case False
    with Cons.prems obtain j where j: "indexOf ys x = int j" "i = Suc j"
      by (cases i) (auto simp: Let_def split: if_splits)
    with Cons.IH [of j] False show ?thesis by simp
  qed
qed

lemma array_splice_indexOf:
  assumes "x \<in> set xs"
  shows "array_splice xs (indexOf xs x) (Suc 0) = remove1 x xs"
proof -
  from indexOf_nonneg [OF assms] obtain i where i: "indexOf xs x = int i"
    using nonneg_int_cases by blast
  with indexOf_less [of xs x] have "i \<le> length xs" by simp
  with i remove1_indexOf [OF i] show ?thesis by (simp add: array_splice_nat)
qed

section \<open>The validation chain: facts\<close>

lemma while_accepts:
  "truthy (fst (runValidationChain_while env chain v isValid index tr)) =
     (truthy isValid \<and> (\<forall>k. index \<le> k \<and> k < length chain \<longrightarrow> truthy (env (chain ! k) v)))"
proof (induction env chain v isValid index tr rule: runValidationChain_while.induct)
  case (1 env chain v isValid index tr)
  show ?case
  proof (cases "truthy isValid \<and> index < length chain")
    case True
    have split: "(\<forall>k. index \<le> k \<and> k < length chain \<longrightarrow> truthy (env (chain ! k) v)) =
      (truthy (env (chain ! index) v) \<and>
       (\<forall>k. Suc index \<le> k \<and> k < length chain \<longrightarrow> truthy (env (chain ! k) v)))"
      using True by (metis Suc_leI le_eq_less_or_eq Suc_leD le_refl)
    show ?thesis
      using True "1.IH" [OF True] split
      by (subst runValidationChain_while.simps) simp
  next
    case False
    then show ?thesis
      by (subst runValidationChain_while.simps) auto
  qed
qed

lemma while_trace:
  "snd (runValidationChain_while env chain v isValid index tr) =
     tr @ (if truthy isValid
           then take (Suc (length (takeWhile (\<lambda>f. truthy (env f v)) (drop index chain))))
                  (drop index chain)
           else [])"
proof (induction env chain v isValid index tr rule: runValidationChain_while.induct)
  case (1 env chain v isValid index tr)
  show ?case
  proof (cases "truthy isValid \<and> index < length chain")
    case True
    then have d: "drop index chain = chain ! index # drop (Suc index) chain"
      by (simp add: Cons_nth_drop_Suc)
    show ?thesis
      using True "1.IH" [OF True]
      by (subst runValidationChain_while.simps) (simp add: d)
  next
    case False
    then show ?thesis
      by (subst runValidationChain_while.simps) auto
  qed
qed

lemma runValidationChain_accepts:
  "truthy (fst (runValidationChain env chain v)) = (\<forall>f \<in> set chain. truthy (env f v))"
  by (simp add: runValidationChain_def while_accepts all_set_conv_all_nth)

lemma runValidationChain_trace:
  "snd (runValidationChain env chain v) =
     take (Suc (length (takeWhile (\<lambda>f. truthy (env f v)) chain))) chain"
  by (simp add: runValidationChain_def while_trace)

lemma takeWhile_stops:
  assumes "i < length xs" "\<not> P (xs ! i)"
  shows "length (takeWhile P xs) \<le> i"
proof (rule ccontr)
  assume "\<not> length (takeWhile P xs) \<le> i"
  then have l: "i < length (takeWhile P xs)" by simp
  then have "takeWhile P xs ! i \<in> set (takeWhile P xs)" by (rule nth_mem)
  then have "P (takeWhile P xs ! i)" by (rule set_takeWhileD [THEN conjunct2])
  with l assms show False by (simp add: takeWhile_nth)
qed

lemma write_fields:
  "lastValue (write' env c v) = obs_read (value' c)"
  "validationChain (write' env c v) = validationChain c"
  "invoked (write' env c v) = invoked c @ snd (runValidationChain env (validationChain c) v)"
  "value' (write' env c v) =
     (if truthy (fst (runValidationChain env (validationChain c) v))
      then obs_write (value' c) v else valueHasMutated (value' c))"
  by (simp_all add: write'_def Let_def split: prod.split)


section \<open>The example cells\<close>

lemma cell_123_eq:
  "cell_123 = \<lparr>value' = \<lparr>latestValue = Num 123, notifications = [Num 123]\<rparr>,
     lastValue = Undefined, validationChain = [0], invoked = []\<rparr>"
  by (simp add: cell_123_def run_def validatedObservable_def ko_observable_def write'_def
      runValidationChain_def runValidationChain_while.simps obs_read_def obs_write_def
      addValidator_def push_def)

lemma cell_NaN_eq:
  "cell_NaN = \<lparr>value' = \<lparr>latestValue = NaN, notifications = [NaN]\<rparr>,
     lastValue = Undefined, validationChain = [0], invoked = []\<rparr>"
  by (simp add: cell_NaN_def run_def validatedObservable_def ko_observable_def write'_def
      runValidationChain_def runValidationChain_while.simps obs_read_def obs_write_def
      addValidator_def push_def)

lemma cell_12_eq:
  "cell_12 = \<lparr>value' = \<lparr>latestValue = Undefined, notifications = []\<rparr>,
     lastValue = Undefined, validationChain = [1, 2], invoked = []\<rparr>"
  by (simp add: cell_12_def run_def validatedObservable_def ko_observable_def
      addValidator_def push_def)

lemma cell_10_eq:
  "cell_10 = \<lparr>value' = \<lparr>latestValue = Undefined, notifications = []\<rparr>,
     lastValue = Undefined, validationChain = [1, 0], invoked = []\<rparr>"
  by (simp add: cell_10_def run_def validatedObservable_def ko_observable_def
      addValidator_def push_def)

section \<open>The operations: facts\<close>

lemma typeof_function: "(typeof v = ''function'') = (\<exists>f. v = Fun f)"
  by (cases v) simp_all

lemma addValidator_chain:
  "validationChain (snd (addValidator c (Fun f))) =
     (if f \<in> set (validationChain c) then validationChain c else validationChain c @ [f])"
  by (simp add: addValidator_def indexOf_absent push_def)

lemma removeValidator_chain:
  "validationChain (snd (removeValidator c (Fun f))) = remove1 f (validationChain c)"
  by (simp add: removeValidator_def Let_def indexOf_absent array_splice_indexOf remove1_idem)

lemma count_list_distinct:
  "distinct xs \<Longrightarrow> x \<in> set xs \<Longrightarrow> count_list xs x = Suc 0"
  by (induction xs) auto

lemma step_distinct:
  assumes "distinct (validationChain c)"
  shows "distinct (validationChain (step env c k))"
proof (cases k)
  case (Write v)
  with assms show ?thesis by (simp add: write_fields)
next
  case (AddValidator v)
  show ?thesis
  proof (cases "typeof v = ''function''")
    case True
    then obtain f where "v = Fun f" by (auto simp: typeof_function)
    with assms AddValidator show ?thesis by (simp add: addValidator_chain)
  next
    case False
    with assms AddValidator show ?thesis by (simp add: addValidator_def)
  qed
next
  case (RemoveValidator v)
  show ?thesis
  proof (cases "typeof v = ''function''")
    case True
    then obtain f where "v = Fun f" by (auto simp: typeof_function)
    with assms RemoveValidator show ?thesis by (simp add: removeValidator_chain)
  next
    case False
    with assms RemoveValidator show ?thesis by (simp add: removeValidator_def)
  qed
qed (use assms in simp_all)

lemma run_distinct:
  "distinct (validationChain c) \<Longrightarrow> distinct (validationChain (run env c calls))"
  unfolding run_def
  by (induction calls arbitrary: c) (simp_all add: step_distinct)

lemma step_keeps_value:
  "\<not> is_Write k \<Longrightarrow>
     value' (step env c k) = value' c \<and> lastValue (step env c k) = lastValue c"
  by (cases k) (simp_all add: addValidator_def removeValidator_def Let_def)

lemma run_keeps_value:
  "\<forall>k \<in> set calls. \<not> is_Write k \<Longrightarrow>
     value' (run env c calls) = value' c \<and> lastValue (run env c calls) = lastValue c"
  unfolding run_def
  by (induction calls arbitrary: c) (simp_all add: step_keeps_value)

text \<open>
  What \<open>hasChanged\<close> returns after a write: whether the value now held is
  \<^verbatim>\<open>!==\<close> to the value held when the write began. An accepted write of a different
  value gives true; a rejected write gives false unless the value held is \<open>NaN\<close>.
\<close>

lemma hasChanged_write:
  "hasChanged (write' env c v) = strict_neq (read (write' env c v)) (read c) \<and>
   ((\<forall>f \<in> set (validationChain c). truthy (env f v)) \<and> strict_neq v (read c) \<longrightarrow>
      hasChanged (write' env c v)) \<and>
   ((\<exists>f \<in> set (validationChain c). \<not> truthy (env f v)) \<and> read c \<noteq> NaN \<longrightarrow>
      \<not> hasChanged (write' env c v))"
  by (auto simp add: hasChanged_def read_def write_fields runValidationChain_accepts
      strict_neq_def obs_read_def obs_write_def valueHasMutated_def)

section \<open>The claims\<close>

text \<open>
  C1. The claim: a cell constructed with an initial value returns that value from
  \<open>read\<close> before any write, and no validator is invoked on it. The constructor does not
  do this: it never passes \<^verbatim>\<open>initValue\<close> to \<^verbatim>\<open>ko.observable()\<close>, so a cell
  constructed with 123 reads as \<^verbatim>\<open>undefined\<close>. No validator has been invoked.
\<close>

theorem validatedObservable_ignores_initValue:
  "read (validatedObservable (Num 123)) = Undefined \<and>
   read (validatedObservable (Num 123)) \<noteq> Num 123 \<and>
   invoked (validatedObservable (Num 123)) = []"
  by (simp add: validatedObservable_def read_def obs_read_def ko_observable_def)

text \<open>
  C2. If some validator of the chain rejects the candidate (returns a falsy value), then
  \<open>write\<close> leaves the current value as it was, so that \<open>read\<close> still returns the prior
  committed value, and the observers receive exactly one more notification, which
  carries that unchanged value.
\<close>

theorem write_rejected_notifies:
  assumes "\<exists>f \<in> set (validationChain c). \<not> truthy (env f candidate)"
  shows "read (write' env c candidate) = read c \<and>
         notifications (value' (write' env c candidate)) = notifications (value' c) @ [read c]"
proof -
  from assms have "\<not> truthy (fst (runValidationChain env (validationChain c) candidate))"
    by (simp add: runValidationChain_accepts)
  then show ?thesis
    by (simp add: read_def write_fields valueHasMutated_def obs_read_def)
qed

text \<open>
  C2, witness: the cell holding 123 with the validator that accepts the numbers above
  100; writing 50 is rejected, the cell still reads 123, and the notification carries
  123.
\<close>

theorem write_rejected_notifies_witness:
  "(\<exists>f \<in> set (validationChain cell_123). \<not> truthy (above_100 f (Num 50))) \<and>
   read (write' above_100 cell_123 (Num 50)) = Num 123 \<and>
   notifications (value' (write' above_100 cell_123 (Num 50))) = [Num 123, Num 123]"
proof -
  have h: "\<exists>f \<in> set (validationChain cell_123). \<not> truthy (above_100 f (Num 50))"
    by (simp add: cell_123_eq above_100_def)
  show ?thesis
    using h write_rejected_notifies [of cell_123 above_100 "Num 50"]
    by (simp add: cell_123_eq read_def obs_read_def)
qed

text \<open>
  C3. A cell with no registered validator accepts every candidate: after
  \<open>write\<close> the current value is the candidate.
\<close>

theorem write_empty_chain_accepts:
  assumes "validationChain c = []"
  shows "read (write' env c candidate) = candidate"
  using assms
  by (simp add: read_def write_fields runValidationChain_accepts obs_write_def obs_read_def)

text \<open>
  C3, witness: a freshly constructed cell accepts the string \<^verbatim>\<open>"abc"\<close>.
\<close>

theorem write_empty_chain_accepts_witness:
  "validationChain (validatedObservable Undefined) = [] \<and>
   read (write' reject_all (validatedObservable Undefined) (Str ''abc'')) = Str ''abc''"
proof -
  have h: "validationChain (validatedObservable Undefined) = []"
    by (simp add: validatedObservable_def)
  show ?thesis
    using h write_empty_chain_accepts [OF h, of reject_all "Str ''abc''"] by simp
qed

text \<open>
  C4. Every write evaluates the chain in registration order, left to right, and
  short-circuits. The validators invoked during a write are exactly the validators of
  the chain up to and including the first one that rejects the candidate, in the order
  of the chain; when none rejects, they are the whole chain in its order. So if the
  validator at index \<open>i\<close> rejects, the validators invoked are the first \<open>n\<close> of the
  chain for the \<open>n \<le> i + 1\<close> whose last one is the first to reject, and no validator at
  an index above \<open>i\<close> is invoked. A newly registered validator goes to the end of the
  chain, so the order of the chain is the order of registration.
\<close>

theorem write_short_circuit:
  "invoked (write' env c candidate) =
     invoked c @
     take (Suc (length (takeWhile (\<lambda>f. truthy (env f candidate)) (validationChain c))))
       (validationChain c) \<and>
   ((\<forall>f \<in> set (validationChain c). truthy (env f candidate)) \<longrightarrow>
      invoked (write' env c candidate) = invoked c @ validationChain c) \<and>
   (i < length (validationChain c) \<and> \<not> truthy (env (validationChain c ! i) candidate) \<longrightarrow>
      (\<exists>n. 0 < n \<and> n \<le> Suc i \<and>
         (\<forall>k < n - 1. truthy (env (validationChain c ! k) candidate)) \<and>
         \<not> truthy (env (validationChain c ! (n - 1)) candidate) \<and>
         invoked (write' env c candidate) = invoked c @ take n (validationChain c))) \<and>
   (g \<notin> set (validationChain c) \<longrightarrow>
      validationChain (snd (addValidator c (Fun g))) = validationChain c @ [g])"
proof -
  let ?P = "\<lambda>f. truthy (env f candidate)"
  let ?chain = "validationChain c"
  let ?m = "length (takeWhile ?P ?chain)"
  have exact: "invoked (write' env c candidate) = invoked c @ take (Suc ?m) ?chain"
    by (simp add: write_fields runValidationChain_trace)
  have accepted: "invoked (write' env c candidate) = invoked c @ ?chain"
    if "\<forall>f \<in> set ?chain. ?P f"
  proof -
    from that have "takeWhile ?P ?chain = ?chain" by (simp add: takeWhile_eq_all_conv)
    with exact show ?thesis by simp
  qed
  have rejected: "\<exists>n. 0 < n \<and> n \<le> Suc i \<and>
      (\<forall>k < n - 1. ?P (?chain ! k)) \<and> \<not> ?P (?chain ! (n - 1)) \<and>
      invoked (write' env c candidate) = invoked c @ take n ?chain"
    if i: "i < length ?chain" and r: "\<not> ?P (?chain ! i)"
  proof -
    have le: "?m \<le> i" using i r by (rule takeWhile_stops)
    have pre: "\<forall>k < ?m. ?P (?chain ! k)"
      by (metis nth_mem set_takeWhileD takeWhile_nth)
    from le i have "?m < length ?chain" by simp
    then have stop: "\<not> ?P (?chain ! ?m)" by (rule nth_length_takeWhile)
    from le pre stop exact show ?thesis
      by (intro exI [of _ "Suc ?m"]) simp
  qed
  have appended: "validationChain (snd (addValidator c (Fun g))) = ?chain @ [g]"
    if "g \<notin> set ?chain"
    using that by (simp add: addValidator_chain)
  from exact accepted rejected appended show ?thesis by blast
qed

text \<open>
  C4, witness. With the chain \<open>[f1, f2]\<close> where \<open>f1\<close> returns false, the write invokes
  \<open>f1\<close> and never \<open>f2\<close>. With the chain \<open>[f1, f0]\<close> where \<open>f1\<close> accepts everything and
  \<open>f0\<close> only the numbers above 100, writing 50 invokes \<open>f1\<close> and then \<open>f0\<close>, which
  rejects, and writing 500 invokes \<open>f1\<close> and then \<open>f0\<close> and is accepted. Registering
  \<open>f3\<close> on the chain \<open>[f1, f2]\<close> gives \<open>[f1, f2, f3]\<close>.
\<close>

theorem write_short_circuit_witness:
  "validationChain cell_12 = [1, 2] \<and>
   \<not> truthy (reject_all (validationChain cell_12 ! 0) (Num 5)) \<and>
   invoked (write' reject_all cell_12 (Num 5)) = [1] \<and>
   validationChain cell_10 = [1, 0] \<and>
   truthy (above_100 1 (Num 50)) \<and> \<not> truthy (above_100 0 (Num 50)) \<and>
   invoked (write' above_100 cell_10 (Num 50)) = [1, 0] \<and>
   truthy (above_100 1 (Num 500)) \<and> truthy (above_100 0 (Num 500)) \<and>
   invoked (write' above_100 cell_10 (Num 500)) = [1, 0] \<and>
   read (write' above_100 cell_10 (Num 500)) = Num 500 \<and>
   validationChain (snd (addValidator cell_12 (Fun 3))) = [1, 2, 3]"
proof -
  have h1: "0 < length (validationChain cell_12) \<and>
      \<not> truthy (reject_all (validationChain cell_12 ! 0) (Num 5))"
    by (simp add: cell_12_eq reject_all_def)
  have h3: "3 \<notin> set (validationChain cell_12)"
    by (simp add: cell_12_eq)
  note t = write_short_circuit [where i = 0 and c = cell_12 and env = reject_all
      and candidate = "Num 5" and g = 3]
  from t h1 obtain n where n: "0 < n" "n \<le> Suc 0"
    and inv: "invoked (write' reject_all cell_12 (Num 5)) =
      invoked cell_12 @ take n (validationChain cell_12)"
    by blast
  from n have "n = Suc 0" by simp
  with inv have 1: "invoked (write' reject_all cell_12 (Num 5)) = [1]"
    by (simp add: cell_12_eq)
  from t h3 have 2: "validationChain (snd (addValidator cell_12 (Fun 3))) =
      validationChain cell_12 @ [3]"
    by blast
  have h4: "1 < length (validationChain cell_10) \<and>
      \<not> truthy (above_100 (validationChain cell_10 ! 1) (Num 50))"
    by (simp add: cell_10_eq above_100_def)
  note u = write_short_circuit [where i = 1 and c = cell_10 and env = above_100
      and candidate = "Num 50"]
  from u h4 obtain n' where n': "0 < n'" "n' \<le> Suc 1"
    and last: "\<not> truthy (above_100 (validationChain cell_10 ! (n' - 1)) (Num 50))"
    and inv': "invoked (write' above_100 cell_10 (Num 50)) =
      invoked cell_10 @ take n' (validationChain cell_10)"
    by blast
  have "n' \<noteq> Suc 0"
    using last by (auto simp add: cell_10_eq above_100_def)
  with n' have "n' = 2" by simp
  with inv' have 3: "invoked (write' above_100 cell_10 (Num 50)) = [1, 0]"
    by (simp add: cell_10_eq)
  have h5: "\<forall>f \<in> set (validationChain cell_10). truthy (above_100 f (Num 500))"
    by (simp add: cell_10_eq above_100_def)
  note w = write_short_circuit [where c = cell_10 and env = above_100
      and candidate = "Num 500"]
  from w h5 have 4: "invoked (write' above_100 cell_10 (Num 500)) =
      invoked cell_10 @ validationChain cell_10"
    by blast
  have 5: "read (write' above_100 cell_10 (Num 500)) = Num 500"
    using h5 by (simp add: read_def write_fields runValidationChain_accepts obs_write_def
        obs_read_def)
  from h1 1 2 3 4 5 show ?thesis
    by (simp add: cell_12_eq cell_10_eq above_100_def)
qed

text \<open>
  C5. The claim: after every rejected write \<open>hasChanged\<close> returns false. The code
  compares with \<^verbatim>\<open>!==\<close>, which holds between \<open>NaN\<close> and itself: in a cell whose
  current value is \<open>NaN\<close>, a write that the chain rejects leaves the value as it was, and
  \<open>hasChanged\<close> returns true although the value was not modified.
\<close>

theorem hasChanged_rejected_NaN:
  "\<not> truthy (fst (runValidationChain reject_all (validationChain cell_NaN) (Num 1))) \<and>
   read cell_NaN = NaN \<and>
   read (write' reject_all cell_NaN (Num 1)) = read cell_NaN \<and>
   hasChanged (write' reject_all cell_NaN (Num 1))"
  by (simp add: runValidationChain_accepts cell_NaN_eq reject_all_def read_def write_fields
      hasChanged_def strict_neq_def obs_read_def valueHasMutated_def)

text \<open>
  C6. \<open>addValidator\<close> and \<open>removeValidator\<close> throw at once when their argument is
  not a function, and the cell, its chain included, is as it was before the call.
\<close>

theorem validator_argument_guard:
  assumes "typeof fn \<noteq> ''function''"
  shows "addValidator c fn =
           (Inl (Thrown ''Invalid argument for addValidator() - Argument 1 MUST be a function''),
            c) \<and>
         removeValidator c fn =
           (Inl (Thrown
                  ''Invalid argument for removeValidator() - Argument 1 MUST be a function''),
            c)"
  using assms by (simp add: addValidator_def removeValidator_def)

text \<open>
  C6, witness: \<^verbatim>\<open>addValidator(null)\<close> and \<^verbatim>\<open>removeValidator(null)\<close> on a fresh
  cell throw, and the chain remains empty.
\<close>

theorem validator_argument_guard_witness:
  "typeof Null \<noteq> ''function'' \<and>
   fst (addValidator (validatedObservable Undefined) Null) =
     Inl (Thrown ''Invalid argument for addValidator() - Argument 1 MUST be a function'') \<and>
   validationChain (snd (addValidator (validatedObservable Undefined) Null)) = [] \<and>
   fst (removeValidator (validatedObservable Undefined) Null) =
     Inl (Thrown ''Invalid argument for removeValidator() - Argument 1 MUST be a function'') \<and>
   validationChain (snd (removeValidator (validatedObservable Undefined) Null)) = []"
proof -
  have h: "typeof Null \<noteq> ''function''" by simp
  have e: "validationChain (validatedObservable Undefined) = []"
    by (simp add: validatedObservable_def)
  from validator_argument_guard [OF h, of "validatedObservable Undefined"] h e
  show ?thesis by simp
qed

text \<open>
  C7. In every cell reached from the constructor by any sequence of calls, the chain
  holds each validator at most once; \<open>addValidator\<close> of a validator already in the chain
  changes nothing; and after adding the same validator twice the chain holds it exactly
  once.
\<close>

theorem validationChain_unique:
  assumes "c = run env (validatedObservable initValue) calls"
  shows "distinct (validationChain c) \<and>
         (f \<in> set (validationChain c) \<longrightarrow> addValidator c (Fun f) = (Inr (), c)) \<and>
         count_list
           (validationChain (snd (addValidator (snd (addValidator c (Fun f))) (Fun f)))) f = 1"
proof -
  have "distinct (validationChain (validatedObservable initValue))"
    by (simp add: validatedObservable_def)
  then have d: "distinct (validationChain c)"
    unfolding assms by (rule run_distinct)
  have noop: "f \<in> set (validationChain c) \<longrightarrow> addValidator c (Fun f) = (Inr (), c)"
    by (simp add: addValidator_def indexOf_absent)
  have "count_list
      (validationChain (snd (addValidator (snd (addValidator c (Fun f))) (Fun f)))) f = 1"
    using d by (simp add: addValidator_chain count_list_distinct)
  with d noop show ?thesis by blast
qed

text \<open>
  C7, witness: the cell holding 123, whose chain holds the validator at address 0;
  adding that validator again, once or twice, leaves the chain \<open>[0]\<close>.
\<close>

theorem validationChain_unique_witness:
  "cell_123 =
     run above_100 (validatedObservable (Num 123)) [Write (Num 123), AddValidator (Fun 0)] \<and>
   distinct (validationChain cell_123) \<and>
   0 \<in> set (validationChain cell_123) \<and>
   addValidator cell_123 (Fun 0) = (Inr (), cell_123) \<and>
   validationChain (snd (addValidator (snd (addValidator cell_123 (Fun 0))) (Fun 0))) = [0]"
proof -
  have h: "cell_123 =
      run above_100 (validatedObservable (Num 123)) [Write (Num 123), AddValidator (Fun 0)]"
    by (rule cell_123_def)
  have m: "0 \<in> set (validationChain cell_123)"
    by (simp add: cell_123_eq)
  from validationChain_unique [OF h, of 0] m
  have "distinct (validationChain cell_123) \<and> addValidator cell_123 (Fun 0) = (Inr (), cell_123)"
    by blast
  with m have "distinct (validationChain cell_123) \<and>
      0 \<in> set (validationChain cell_123) \<and>
      addValidator cell_123 (Fun 0) = (Inr (), cell_123) \<and>
      validationChain (snd (addValidator (snd (addValidator cell_123 (Fun 0))) (Fun 0))) = [0]"
    by (simp add: cell_123_eq)
  with h show ?thesis by (rule conjI)
qed

text \<open>
  C8, as stated, fails: the claim says that \<open>addValidator(f)\<close> followed by
  \<open>removeValidator(f)\<close> restores the chain for every cell state and every \<open>f\<close>. When
  \<open>f\<close> is already in the chain the addition changes nothing and the removal takes \<open>f\<close>
  out, so the chain \<open>[0]\<close> ends empty.
\<close>

theorem add_remove_counterexample:
  "validationChain (snd (removeValidator (snd (addValidator cell_123 (Fun 0))) (Fun 0)))
     \<noteq> validationChain cell_123"
  by (simp add: cell_123_eq addValidator_def removeValidator_def array_splice_def)

text \<open>
  C8, amended. For a validator \<open>f\<close> that is not in the chain, \<open>addValidator(f)\<close>
  followed by \<open>removeValidator(f)\<close> restores the cell exactly; for one that is already in
  the chain, the sequence leaves the chain with the entry of \<open>f\<close> removed.
  \<open>removeValidator(f)\<close> removes the first entry equal to \<open>f\<close> and keeps the others in
  their order, and it changes nothing when \<open>f\<close> is absent.
\<close>

theorem add_remove_inverse:
  "(f \<notin> set (validationChain c) \<longrightarrow>
      snd (removeValidator (snd (addValidator c (Fun f))) (Fun f)) = c) \<and>
   (f \<in> set (validationChain c) \<longrightarrow>
      validationChain (snd (removeValidator (snd (addValidator c (Fun f))) (Fun f))) =
        remove1 f (validationChain c)) \<and>
   validationChain (snd (removeValidator c (Fun f))) = remove1 f (validationChain c) \<and>
   (f \<notin> set (validationChain c) \<longrightarrow> removeValidator c (Fun f) = (Inr (), c))"
proof -
  have absent: "removeValidator c (Fun f) = (Inr (), c)" if "f \<notin> set (validationChain c)"
    using that by (simp add: removeValidator_def indexOf_absent)
  have inv: "snd (removeValidator (snd (addValidator c (Fun f))) (Fun f)) = c"
    if "f \<notin> set (validationChain c)"
  proof -
    let ?c1 = "c\<lparr>validationChain := validationChain c @ [f]\<rparr>"
    from that have a: "snd (addValidator c (Fun f)) = ?c1"
      by (simp add: addValidator_def indexOf_absent push_def)
    have "f \<in> set (validationChain ?c1)" by simp
    then have "snd (removeValidator ?c1 (Fun f)) =
        ?c1\<lparr>validationChain := remove1 f (validationChain ?c1)\<rparr>"
      by (simp add: removeValidator_def Let_def indexOf_absent array_splice_indexOf
          del: cell.simps)
    with that a show ?thesis by (simp add: remove1_append)
  qed
  have present: "validationChain (snd (removeValidator (snd (addValidator c (Fun f))) (Fun f))) =
        remove1 f (validationChain c)" if "f \<in> set (validationChain c)"
    using that by (simp add: removeValidator_chain addValidator_chain)
  from absent inv present show ?thesis
    by (simp add: removeValidator_chain)
qed

text \<open>
  C8, witness: on the cell with the chain \<open>[1, 2]\<close>, adding and removing the absent
  validator 7 restores the cell, and removing 1 leaves \<open>[2]\<close>.
\<close>

theorem add_remove_inverse_witness:
  "7 \<notin> set (validationChain cell_12) \<and>
   snd (removeValidator (snd (addValidator cell_12 (Fun 7))) (Fun 7)) = cell_12 \<and>
   removeValidator cell_12 (Fun 7) = (Inr (), cell_12) \<and>
   1 \<in> set (validationChain cell_12) \<and>
   validationChain (snd (removeValidator (snd (addValidator cell_12 (Fun 1))) (Fun 1))) = [2] \<and>
   validationChain (snd (removeValidator cell_12 (Fun 1))) = [2]"
proof -
  have a: "7 \<notin> set (validationChain cell_12)" and p: "1 \<in> set (validationChain cell_12)"
    by (simp_all add: cell_12_eq)
  from a add_remove_inverse [of 7 cell_12]
  have 1: "snd (removeValidator (snd (addValidator cell_12 (Fun 7))) (Fun 7)) = cell_12 \<and>
      removeValidator cell_12 (Fun 7) = (Inr (), cell_12)"
    by blast
  from p add_remove_inverse [of 1 cell_12]
  have 2: "validationChain (snd (removeValidator (snd (addValidator cell_12 (Fun 1))) (Fun 1))) =
      remove1 1 (validationChain cell_12) \<and>
      validationChain (snd (removeValidator cell_12 (Fun 1))) = remove1 1 (validationChain cell_12)"
    by blast
  from a p 1 2 show ?thesis by (simp add: cell_12_eq)
qed

text \<open>
  C9. Before the first write, whatever other calls have been made, \<open>hasChanged\<close>
  returns false: the current value and the snapshot are both \<^verbatim>\<open>undefined\<close>, the
  construction argument is not stored, and only \<open>write\<close> assigns either of them.
\<close>

theorem hasChanged_before_first_write:
  assumes "\<forall>k \<in> set calls. \<not> is_Write k"
  shows "\<not> hasChanged (run env (validatedObservable initValue) calls) \<and>
         read (run env (validatedObservable initValue) calls) = Undefined \<and>
         lastValue (run env (validatedObservable initValue) calls) = Undefined"
  using run_keeps_value [OF assms, of env "validatedObservable initValue"]
  by (simp add: hasChanged_def read_def strict_neq_def validatedObservable_def
      ko_observable_def obs_read_def)

text \<open>
  C9, witness: a cell constructed with 123, after calls of \<open>hasChanged\<close>,
  \<open>addValidator\<close>, \<open>read\<close> and \<open>removeValidator\<close>.
\<close>

theorem hasChanged_before_first_write_witness:
  "\<not> hasChanged (run above_100 (validatedObservable (Num 123))
        [HasChanged, AddValidator (Fun 0), Read, RemoveValidator Null]) \<and>
   read (run above_100 (validatedObservable (Num 123))
        [HasChanged, AddValidator (Fun 0), Read, RemoveValidator Null]) = Undefined"
proof -
  have h: "\<forall>k \<in> set [HasChanged, AddValidator (Fun 0), Read, RemoveValidator Null].
      \<not> is_Write k"
    by simp
  from hasChanged_before_first_write [OF h, of above_100 "Num 123"]
  show ?thesis by simp
qed

text \<open>
  C10. \<open>write\<close> never modifies the chain, accepted or rejected;
  \<open>addValidator\<close> and \<open>removeValidator\<close> never modify the current value or the
  snapshot, whether they throw or return, so the results of \<open>read\<close> and \<open>hasChanged\<close>
  are the same after them as before.
\<close>

theorem frame_properties:
  "validationChain (write' env c v) = validationChain c \<and>
   value' (snd (addValidator c fn)) = value' c \<and>
   lastValue (snd (addValidator c fn)) = lastValue c \<and>
   value' (snd (removeValidator c fn)) = value' c \<and>
   lastValue (snd (removeValidator c fn)) = lastValue c \<and>
   read (snd (addValidator c fn)) = read c \<and>
   hasChanged (snd (addValidator c fn)) = hasChanged c \<and>
   read (snd (removeValidator c fn)) = read c \<and>
   hasChanged (snd (removeValidator c fn)) = hasChanged c"
  by (simp add: write_fields addValidator_def removeValidator_def Let_def read_def
      hasChanged_def)

end
